theory Spec2Isabelle
  imports Main "HOL-Library.Word" "HOL-Library.Multiset"
begin

section \<open>SnowflakeList: a sorted array of unsigned 64-bit identifiers\<close>

text \<open>
  The class under study is \<^verbatim>\<open>SnowflakeList\<close> of \<^verbatim>\<open>discord/utils.py\<close>:
  \<^verbatim>\<open>
  class SnowflakeList(array.array):
      def __new__(cls, data, *, is_sorted=False):
          return array.array.__new__(cls, "Q", data if is_sorted else sorted(data))
      def add(self, element):
          i = bisect_left(self, element)
          self.insert(i, element)
      def get(self, element):
          i = bisect_left(self, element)
          return self[i] if i != len(self) and self[i] == element else None
      def has(self, element):
          i = bisect_left(self, element)
          return i != len(self) and self[i] == element
  \<close>
  The backing store is an \<^verbatim>\<open>array.array\<close> of type code \<^verbatim>\<open>"Q"\<close> (unsigned 64-bit
  items), so the stored data is a list of 64-bit words. The arguments of the methods are
  Python integers, which are unbounded: they are modelled as \<open>int\<close>, and the conversion
  to an array item fails with \<^verbatim>\<open>OverflowError\<close> outside \<open>0 ..< 2 ^ 64\<close>.
  Reading an item gives its unsigned value back as a Python integer.
\<close>

subsection \<open>The array of type code Q\<close>

datatype py_error = OverflowError | IndexError

type_synonym u64 = "64 word"

type_synonym snowflake_list = "u64 list"

definition in_Q_range :: "int \<Rightarrow> bool" where
  "in_Q_range x = (0 \<le> x \<and> x < 2 ^ 64)"

text \<open>Storing a Python integer as an item of the array.\<close>

definition to_Q :: "int \<Rightarrow> py_error + u64" where
  "to_Q x = (if in_Q_range x then Inr (word_of_int x) else Inl OverflowError)"

text \<open>\<^verbatim>\<open>array.array.__new__(cls, "Q", items)\<close>: every item is converted in turn.\<close>

fun array_new :: "int list \<Rightarrow> py_error + snowflake_list" where
  "array_new [] = Inr []"
| "array_new (x # xs) =
     (case to_Q x of
        Inl e \<Rightarrow> Inl e
      | Inr w \<Rightarrow> (case array_new xs of Inl e \<Rightarrow> Inl e | Inr ws \<Rightarrow> Inr (w # ws)))"

text \<open>Iteration over the array yields the items as Python integers, first to last.\<close>

definition iterate :: "snowflake_list \<Rightarrow> int list" where
  "iterate self = map uint self"

text \<open>
  \<^verbatim>\<open>self[i]\<close> for an index \<open>i \<ge> 0\<close>: \<^verbatim>\<open>IndexError\<close> at or beyond the length.
  (Every index the class computes is a result of \<^verbatim>\<open>bisect_left\<close>, hence not negative.)
\<close>

definition getitem :: "snowflake_list \<Rightarrow> nat \<Rightarrow> py_error + int" where
  "getitem self i = (if i < length self then Inr (uint (self ! i)) else Inl IndexError)"

text \<open>
  \<^verbatim>\<open>self.insert(i, x)\<close> for \<open>i \<ge> 0\<close>: the new item goes before position \<open>i\<close>; an index
  beyond the end appends (\<open>take\<close> and \<open>drop\<close> clamp in the same way).
\<close>

definition array_insert :: "snowflake_list \<Rightarrow> nat \<Rightarrow> int \<Rightarrow> py_error + snowflake_list" where
  "array_insert self i x =
     (case to_Q x of Inl e \<Rightarrow> Inl e | Inr w \<Rightarrow> Inr (take i self @ w # drop i self))"

text \<open>
  \<^verbatim>\<open>x in self\<close>: the class does not override \<^verbatim>\<open>__contains__\<close>, so the test is the
  array's own, a scan from the first item comparing with \<^verbatim>\<open>==\<close>.
\<close>

fun array_contains :: "snowflake_list \<Rightarrow> int \<Rightarrow> bool" where
  "array_contains [] x = False"
| "array_contains (w # ws) x = (if uint w = x then True else array_contains ws x)"

subsection \<open>The standard library's bisect_left\<close>

text \<open>
  \<^verbatim>\<open>bisect.bisect_left(a, x)\<close> with the default bounds \<^verbatim>\<open>lo=0, hi=len(a)\<close>:
  \<^verbatim>\<open>
  while lo < hi:
      mid = (lo + hi) // 2
      if a[mid] < x: lo = mid + 1
      else: hi = mid
  return lo
  \<close>
  The read \<^verbatim>\<open>a[mid]\<close> is the checked one.
\<close>

function bisect_left_loop :: "snowflake_list \<Rightarrow> int \<Rightarrow> nat \<Rightarrow> nat \<Rightarrow> py_error + nat" where
  "bisect_left_loop a x lo hi =
     (if lo < hi then
        (let mid = (lo + hi) div 2 in
           case getitem a mid of
             Inl e \<Rightarrow> Inl e
           | Inr y \<Rightarrow>
               if y < x then bisect_left_loop a x (mid + 1) hi
               else bisect_left_loop a x lo mid)
      else Inr lo)"
  by pat_completeness auto
termination
  by (relation "measure (\<lambda>(a, x, lo, hi). hi - lo)") auto

declare bisect_left_loop.simps [simp del]

definition bisect_left :: "snowflake_list \<Rightarrow> int \<Rightarrow> py_error + nat" where
  "bisect_left a x = bisect_left_loop a x 0 (length a)"

subsection \<open>The class\<close>

text \<open>Python's built-in \<^verbatim>\<open>sorted\<close> on integers is the ascending sort \<^const>\<open>sort\<close>.\<close>

definition SnowflakeList_new :: "int list \<Rightarrow> bool \<Rightarrow> py_error + snowflake_list" where
  "SnowflakeList_new data is_sorted = array_new (if is_sorted then data else sort data)"

definition add :: "snowflake_list \<Rightarrow> int \<Rightarrow> py_error + snowflake_list" where
  "add self element =
     (case bisect_left self element of
        Inl e \<Rightarrow> Inl e
      | Inr i \<Rightarrow> array_insert self i element)"

text \<open>
  The condition \<^verbatim>\<open>i != len(self) and self[i] == element\<close> shared by \<^verbatim>\<open>get\<close> and
  \<^verbatim>\<open>has\<close>; \<^verbatim>\<open>and\<close> reads \<^verbatim>\<open>self[i]\<close> only when the first conjunct holds.
\<close>

definition found_at :: "snowflake_list \<Rightarrow> nat \<Rightarrow> int \<Rightarrow> py_error + bool" where
  "found_at self i element =
     (if i \<noteq> length self then
        (case getitem self i of Inl e \<Rightarrow> Inl e | Inr y \<Rightarrow> Inr (y = element))
      else Inr False)"

definition get :: "snowflake_list \<Rightarrow> int \<Rightarrow> py_error + int option" where
  "get self element =
     (case bisect_left self element of
        Inl e \<Rightarrow> Inl e
      | Inr i \<Rightarrow>
          (case found_at self i element of
             Inl e \<Rightarrow> Inl e
           | Inr True \<Rightarrow> (case getitem self i of Inl e \<Rightarrow> Inl e | Inr y \<Rightarrow> Inr (Some y))
           | Inr False \<Rightarrow> Inr None))"

definition has :: "snowflake_list \<Rightarrow> int \<Rightarrow> py_error + bool" where
  "has self element =
     (case bisect_left self element of
        Inl e \<Rightarrow> Inl e
      | Inr i \<Rightarrow> found_at self i element)"

subsection \<open>The insertion point, as the specification words it\<close>

text \<open>
  The specification speaks of the leftmost insertion point of a value in a sequence: the
  first position whose item is not below the value (the length when there is none).
  This definition follows those words, not the code; the theorems below compare
  \<^const>\<open>bisect_left\<close> with it.
\<close>

definition leftmost_insertion_point :: "int list \<Rightarrow> int \<Rightarrow> nat" where
  "leftmost_insertion_point xs v = length (takeWhile (\<lambda>y. y < v) xs)"

section \<open>Auxiliary facts\<close>

subsection \<open>Conversions and the binary search\<close>

lemma to_Q_uint: "to_Q (uint w) = Inr w"
  using uint_lt2p [of w] by (simp add: to_Q_def in_Q_range_def)

lemma to_Q_in_range: "in_Q_range x \<Longrightarrow> \<exists>w. to_Q x = Inr w \<and> uint w = x"
  by (simp add: to_Q_def in_Q_range_def uint_word_of_int take_bit_int_eq_self)

lemma array_new_in_range:
  "list_all in_Q_range xs \<Longrightarrow> \<exists>s. array_new xs = Inr s \<and> iterate s = xs"
proof (induction xs)
  case Nil
  then show ?case by (simp add: iterate_def)
next
  case (Cons x xs)
  then obtain s where s: "array_new xs = Inr s" "iterate s = xs" by auto
  from Cons.prems obtain w where w: "to_Q x = Inr w" "uint w = x"
    using to_Q_in_range [of x] by auto
  show ?case using s w by (simp add: iterate_def)
qed

text \<open>The loop stays within its bounds, on any array.\<close>

lemma bisect_left_loop_total:
  "lo \<le> hi \<Longrightarrow> hi \<le> length a \<Longrightarrow> \<exists>i. bisect_left_loop a x lo hi = Inr i \<and> lo \<le> i \<and> i \<le> hi"
proof (induction a x lo hi rule: bisect_left_loop.induct)
  case (1 a x lo hi)
  show ?case
  proof (cases "lo < hi")
    case False
    then show ?thesis using "1.prems" by (subst bisect_left_loop.simps) simp
  next
    case True
    define mid where "mid = (lo + hi) div 2"
    have mid: "lo \<le> mid" "mid < hi" using True by (simp_all add: mid_def)
    then have g: "getitem a mid = Inr (uint (a ! mid))"
      using "1.prems" by (simp add: getitem_def)
    show ?thesis
    proof (cases "uint (a ! mid) < x")
      case lt: True
      have "\<exists>i. bisect_left_loop a x (mid + 1) hi = Inr i \<and> mid + 1 \<le> i \<and> i \<le> hi"
        using "1.IH"(1) [OF True mid_def g lt] mid "1.prems" by simp
      then show ?thesis
        using True g lt mid by (subst bisect_left_loop.simps) (auto simp: mid_def [symmetric] Let_def)
    next
      case ge: False
      have "\<exists>i. bisect_left_loop a x lo mid = Inr i \<and> lo \<le> i \<and> i \<le> mid"
        using "1.IH"(2) [OF True mid_def g ge] mid "1.prems" by simp
      then show ?thesis
        using True g ge mid by (subst bisect_left_loop.simps) (auto simp: mid_def [symmetric] Let_def)
    qed
  qed
qed

lemma length_iterate: "length (iterate a) = length a"
  by (simp add: iterate_def)

lemma bisect_left_loop_sorted:
  "sorted (iterate a) \<Longrightarrow> lo \<le> hi \<Longrightarrow> hi \<le> length a \<Longrightarrow>
   \<forall>j<lo. iterate a ! j < x \<Longrightarrow>
   \<forall>j. hi \<le> j \<and> j < length a \<longrightarrow> x \<le> iterate a ! j \<Longrightarrow>
   \<exists>i. bisect_left_loop a x lo hi = Inr i \<and> i \<le> length a \<and>
       (\<forall>j<i. iterate a ! j < x) \<and> (\<forall>j. i \<le> j \<and> j < length a \<longrightarrow> x \<le> iterate a ! j)"
proof (induction a x lo hi rule: bisect_left_loop.induct)
  case (1 a x lo hi)
  note srt = \<open>sorted (iterate a)\<close>
  show ?case
  proof (cases "lo < hi")
    case False
    then have "lo = hi" using "1.prems" by simp
    then show ?thesis using "1.prems" by (subst bisect_left_loop.simps) simp
  next
    case True
    define mid where "mid = (lo + hi) div 2"
    have mid: "lo \<le> mid" "mid < hi" using True by (simp_all add: mid_def)
    then have len: "mid < length a" using "1.prems" by simp
    then have g: "getitem a mid = Inr (uint (a ! mid))"
      by (simp add: getitem_def)
    have nth: "iterate a ! mid = uint (a ! mid)"
      using len by (simp add: iterate_def)
    show ?thesis
    proof (cases "uint (a ! mid) < x")
      case lt: True
      have below: "\<forall>j<mid + 1. iterate a ! j < x"
      proof (intro allI impI)
        fix j assume "j < mid + 1"
        then have "iterate a ! j \<le> iterate a ! mid"
          using sorted_nth_mono [OF srt, of j mid] len by (simp add: length_iterate)
        then show "iterate a ! j < x" using lt nth by simp
      qed
      have "\<exists>i. bisect_left_loop a x (mid + 1) hi = Inr i \<and> i \<le> length a \<and>
          (\<forall>j<i. iterate a ! j < x) \<and> (\<forall>j. i \<le> j \<and> j < length a \<longrightarrow> x \<le> iterate a ! j)"
        using "1.IH"(1) [OF True mid_def g lt srt _ _ below] mid "1.prems" by simp
      then show ?thesis
        using True g lt by (subst bisect_left_loop.simps) (simp add: mid_def [symmetric] Let_def)
    next
      case ge: False
      have above: "\<forall>j. mid \<le> j \<and> j < length a \<longrightarrow> x \<le> iterate a ! j"
      proof (intro allI impI)
        fix j assume "mid \<le> j \<and> j < length a"
        then have "iterate a ! mid \<le> iterate a ! j"
          using sorted_nth_mono [OF srt, of mid j] by (simp add: length_iterate)
        then show "x \<le> iterate a ! j" using ge nth by simp
      qed
      have "\<exists>i. bisect_left_loop a x lo mid = Inr i \<and> i \<le> length a \<and>
          (\<forall>j<i. iterate a ! j < x) \<and> (\<forall>j. i \<le> j \<and> j < length a \<longrightarrow> x \<le> iterate a ! j)"
        using "1.IH"(2) [OF True mid_def g ge srt _ _ _ above] mid "1.prems" by simp
      then show ?thesis
        using True g ge by (subst bisect_left_loop.simps) (simp add: mid_def [symmetric] Let_def)
    qed
  qed
qed

lemma split_point_is_leftmost:
  assumes "i \<le> length xs" "\<forall>j<i. xs ! j < v" "\<forall>j. i \<le> j \<and> j < length xs \<longrightarrow> v \<le> xs ! j"
  shows "leftmost_insertion_point xs v = i"
proof -
  have "takeWhile (\<lambda>y. y < v) xs = take i xs"
  proof (rule takeWhile_eq_take_P_nth)
    fix j assume "j < i" "j < length xs"
    then show "xs ! j < v" using assms(2) by simp
  next
    assume "i < length xs"
    then have "v \<le> xs ! i" using assms(3) by simp
    then show "\<not> xs ! i < v" by simp
  qed
  then show ?thesis using assms(1) by (simp add: leftmost_insertion_point_def)
qed

lemma bisect_left_sorted:
  assumes "sorted (iterate a)"
  shows "bisect_left a x = Inr (leftmost_insertion_point (iterate a) x)"
proof -
  obtain i where i: "bisect_left_loop a x 0 (length a) = Inr i" "i \<le> length a"
      "\<forall>j<i. iterate a ! j < x" "\<forall>j. i \<le> j \<and> j < length a \<longrightarrow> x \<le> iterate a ! j"
    using bisect_left_loop_sorted [OF assms, of 0 "length a" x] by auto
  have "leftmost_insertion_point (iterate a) x = i"
    using i(2-4) by (intro split_point_is_leftmost) (simp_all add: iterate_def)
  then show ?thesis using i(1) by (simp add: bisect_left_def)
qed

lemma insort_takeWhile:
  "insort v xs = takeWhile (\<lambda>y. y < v) xs @ v # dropWhile (\<lambda>y. y < v) xs"
  by (induction xs) auto

lemma insort_leftmost:
  "insort v xs = take (leftmost_insertion_point xs v) xs @ v # drop (leftmost_insertion_point xs v) xs"
  by (simp add: insort_takeWhile leftmost_insertion_point_def takeWhile_eq_take [symmetric] dropWhile_eq_drop [symmetric])

subsection \<open>The methods on arbitrary and on sorted arrays\<close>

lemma uint_in_Q_range: "in_Q_range (uint (w :: u64))"
  using uint_lt2p [of w] by (simp add: in_Q_range_def)

lemma iterate_in_Q_range: "v \<in> set (iterate s) \<Longrightarrow> in_Q_range v"
  by (auto simp: iterate_def uint_in_Q_range)

lemma bisect_left_total: "\<exists>i. bisect_left a x = Inr i \<and> i \<le> length a"
  using bisect_left_loop_total [of 0 "length a" a x] by (auto simp: bisect_left_def)

lemma iterate_insert:
  "uint w = v \<Longrightarrow> iterate (take i s @ w # drop i s) = take i (iterate s) @ v # drop i (iterate s)"
  by (simp add: iterate_def take_map drop_map)

text \<open>What \<open>add\<close> does on any array: one item goes in at the index \<open>bisect_left\<close> returns.\<close>

lemma add_any:
  assumes "in_Q_range v"
  shows "\<exists>i w. bisect_left s v = Inr i \<and> i \<le> length s \<and> uint w = v \<and>
           add s v = Inr (take i s @ w # drop i s)"
proof -
  obtain i where i: "bisect_left s v = Inr i" "i \<le> length s"
    using bisect_left_total by blast
  obtain w where w: "to_Q v = Inr w" "uint w = v"
    using to_Q_in_range [OF assms] by blast
  show ?thesis using i w by (simp add: add_def array_insert_def)
qed

lemma add_out_of_range: "\<not> in_Q_range v \<Longrightarrow> add s v = Inl OverflowError"
  using bisect_left_total [of s v] by (auto simp: add_def array_insert_def to_Q_def)

text \<open>On a sorted array this is the insertion of insertion sort.\<close>

lemma add_sorted:
  assumes "sorted (iterate s)" "in_Q_range v"
  shows "\<exists>s'. add s v = Inr s' \<and> iterate s' = insort v (iterate s)"
proof -
  obtain i w where iw: "bisect_left s v = Inr i" "uint w = v"
      "add s v = Inr (take i s @ w # drop i s)"
    using add_any [OF assms(2)] by blast
  have "i = leftmost_insertion_point (iterate s) v"
    using iw(1) bisect_left_sorted [OF assms(1), of v] by simp
  then have "iterate (take i s @ w # drop i s) = insort v (iterate s)"
    using iterate_insert [OF iw(2)] by (simp add: insort_leftmost)
  then show ?thesis using iw(3) by simp
qed

lemma found_at_nth:
  "i \<le> length s \<Longrightarrow> found_at s i v = Inr (i < length s \<and> iterate s ! i = v)"
  by (auto simp: found_at_def getitem_def iterate_def)

lemma leftmost_hit:
  assumes "sorted xs"
  shows "(leftmost_insertion_point xs v < length xs \<and> xs ! leftmost_insertion_point xs v = v)
         \<longleftrightarrow> v \<in> set xs"
proof
  assume "leftmost_insertion_point xs v < length xs \<and> xs ! leftmost_insertion_point xs v = v"
  then show "v \<in> set xs" using nth_mem by metis
next
  assume v: "v \<in> set xs"
  let ?P = "\<lambda>y. y < v"
  let ?i = "leftmost_insertion_point xs v"
  have split: "xs = takeWhile ?P xs @ dropWhile ?P xs" by simp
  have "v \<notin> set (takeWhile ?P xs)" using set_takeWhileD by fastforce
  then have vd: "v \<in> set (dropWhile ?P xs)" using v split
    by (metis Un_iff set_append)
  have ne: "dropWhile ?P xs \<noteq> []" using v by auto
  have "length xs = length (takeWhile ?P xs) + length (dropWhile ?P xs)"
    by (metis length_append takeWhile_dropWhile_id)
  then have lt: "?i < length xs"
    using ne by (simp add: leftmost_insertion_point_def)
  have nth: "xs ! ?i = hd (dropWhile ?P xs)"
    using ne by (simp add: leftmost_insertion_point_def hd_dropWhile hd_conv_nth nth_length_takeWhile dropWhile_nth)
  have "\<not> ?P (hd (dropWhile ?P xs))" using ne hd_dropWhile by blast
  then have ge: "v \<le> xs ! ?i" using nth by simp
  have "sorted (dropWhile ?P xs)" using assms sorted_dropWhile by blast
  then have "hd (dropWhile ?P xs) \<le> v" using vd ne
    by (cases "dropWhile ?P xs") auto
  then show "?i < length xs \<and> xs ! ?i = v" using lt ge nth by simp
qed

lemma has_sorted:
  assumes "sorted (iterate s)"
  shows "has s v = Inr (v \<in> set (iterate s))"
proof -
  let ?i = "leftmost_insertion_point (iterate s) v"
  have le: "?i \<le> length s"
    using length_takeWhile_le [of "\<lambda>y. y < v" "iterate s"]
    by (simp add: leftmost_insertion_point_def length_iterate)
  have "has s v = found_at s ?i v"
    by (simp add: has_def bisect_left_sorted [OF assms])
  also have "\<dots> = Inr (?i < length s \<and> iterate s ! ?i = v)"
    by (rule found_at_nth [OF le])
  also have "\<dots> = Inr (v \<in> set (iterate s))"
    using leftmost_hit [OF assms, of v] by (simp add: length_iterate)
  finally show ?thesis .
qed

lemma array_contains_set: "array_contains s v \<longleftrightarrow> v \<in> set (iterate s)"
  by (induction s) (auto simp: iterate_def)

lemma get_has: "\<exists>b. has s x = Inr b \<and> get s x = Inr (if b then Some x else None)"
proof -
  obtain i where i: "bisect_left s x = Inr i" "i \<le> length s"
    using bisect_left_total by blast
  show ?thesis
    using i by (auto simp: has_def get_def found_at_def getitem_def)
qed

section \<open>Properties of the class\<close>

subsection \<open>Construction from unsorted data\<close>

lemma SnowflakeList_new_unsorted:
  assumes "list_all in_Q_range data"
  shows "\<exists>s. SnowflakeList_new data False = Inr s \<and> iterate s = sort data"
proof -
  have "list_all in_Q_range (sort data)"
    using assms by (simp add: list_all_iff)
  then show ?thesis
    using array_new_in_range [of "sort data"] by (simp add: SnowflakeList_new_def)
qed

text \<open>
  C1, as stated, fails: the constructor with \<^verbatim>\<open>is_sorted=False\<close> sorts and removes
  nothing, so the data \<open>[3, 3]\<close> gives an array that holds \<open>3\<close> twice.
\<close>

theorem C1_counterexample:
  "SnowflakeList_new [3, 3] False = Inr [3, 3] \<and> \<not> distinct (iterate [3, 3])"
  by (simp add: SnowflakeList_new_def to_Q_def in_Q_range_def iterate_def)

text \<open>
  C1, amended: for every finite input of unsigned 64-bit integers the constructor with
  \<^verbatim>\<open>is_sorted=False\<close> succeeds, and the items of the resulting array are pairwise
  distinct exactly when the values of the input are; repeated input values are kept.
\<close>

theorem C1_amended:
  assumes "list_all in_Q_range data"
  shows "\<exists>s. SnowflakeList_new data False = Inr s \<and> (distinct (iterate s) \<longleftrightarrow> distinct data)"
proof -
  obtain s where s: "SnowflakeList_new data False = Inr s" "iterate s = sort data"
    using SnowflakeList_new_unsorted [OF assms] by blast
  then show ?thesis by simp
qed

theorem C1_amended_witness:
  "list_all in_Q_range [5, 1, 3] \<and>
   (\<exists>s. SnowflakeList_new [5, 1, 3] False = Inr s \<and>
        (distinct (iterate s) \<longleftrightarrow> distinct [5, 1, 3 :: int]))"
  using C1_amended [of "[5, 1, 3]"] by (simp add: in_Q_range_def)

subsection \<open>Insertion and lookup\<close>

text \<open>
  C2: when the items of the array are in non-decreasing order and \<open>v\<close> is an unsigned
  64-bit value, \<open>add\<close> succeeds and the items of the new array are in non-decreasing
  order.
\<close>

theorem C2_add_keeps_order:
  assumes "sorted (iterate s)" "in_Q_range v"
  shows "\<exists>s'. add s v = Inr s' \<and> sorted (iterate s')"
proof -
  obtain s' where "add s v = Inr s'" "iterate s' = insort v (iterate s)"
    using add_sorted [OF assms] by blast
  then show ?thesis using assms(1) by (simp add: sorted_insort)
qed

theorem C2_witness:
  "sorted (iterate [1, 3, 5]) \<and> in_Q_range 3 \<and>
   (\<exists>s'. add [1, 3, 5] 3 = Inr s' \<and> sorted (iterate s'))"
  using C2_add_keeps_order [of "[1, 3, 5]" 3] by (simp add: iterate_def in_Q_range_def)

text \<open>
  C3: on a sorted array and an unsigned 64-bit value \<open>x\<close>, \<open>has x\<close> returns true on the
  array that \<open>add x\<close> leaves.
\<close>

theorem C3_has_after_add:
  assumes "sorted (iterate s)" "in_Q_range x"
  shows "\<exists>s'. add s x = Inr s' \<and> has s' x = Inr True"
proof -
  obtain s' where s': "add s x = Inr s'" "iterate s' = insort x (iterate s)"
    using add_sorted [OF assms] by blast
  have "sorted (iterate s')" using s'(2) assms(1) by (simp add: sorted_insort)
  then have "has s' x = Inr (x \<in> set (iterate s'))" by (rule has_sorted)
  then show ?thesis using s' by (simp add: set_insort_key)
qed

theorem C3_witness:
  "sorted (iterate [1, 3, 5]) \<and> in_Q_range 4 \<and>
   (\<exists>s'. add [1, 3, 5] 4 = Inr s' \<and> has s' 4 = Inr True)"
  using C3_has_after_add [of "[1, 3, 5]" 4] by (simp add: iterate_def in_Q_range_def)

text \<open>
  C4: on a sorted array, \<open>has x\<close> returns a boolean; \<open>get x\<close> returns \<open>x\<close> when that
  boolean is true and \<open>None\<close>, not an error, when it is false. (The order of the items
  plays no part in the proof: both methods test the same position.)
\<close>

theorem C4_get_follows_has:
  assumes "sorted (iterate s)"
  shows "(\<exists>b. has s x = Inr b) \<and>
         (has s x = Inr True \<longrightarrow> get s x = Inr (Some x)) \<and>
         (has s x = Inr False \<longrightarrow> get s x = Inr None)"
  using get_has [of s x] by auto

theorem C4_witness:
  "sorted (iterate [1, 3, 3, 5]) \<and>
   has [1, 3, 3, 5] 5 = Inr True \<and> get [1, 3, 3, 5] 5 = Inr (Some 5) \<and>
   has [1, 3, 3, 5] 4 = Inr False \<and> get [1, 3, 3, 5] 4 = Inr None"
proof -
  have s: "sorted (iterate [1, 3, 3, 5])" by (simp add: iterate_def)
  have h5: "has [1, 3, 3, 5] 5 = Inr True"
    using has_sorted [OF s, of 5] by (simp add: iterate_def)
  have h4: "has [1, 3, 3, 5] 4 = Inr False"
    using has_sorted [OF s, of 4] by (simp add: iterate_def)
  show ?thesis
    using C4_get_follows_has [OF s, of 5] C4_get_follows_has [OF s, of 4] s h5 h4 by simp
qed

text \<open>
  C5: on a sorted array that already holds \<open>v\<close>, \<open>add v\<close> succeeds, the new array is
  one item longer, and two neighbouring positions of it both hold \<open>v\<close>.
\<close>

theorem C5_add_present_value:
  assumes "sorted (iterate s)" "v \<in> set (iterate s)"
  shows "\<exists>s' i. add s v = Inr s' \<and> length s' = length s + 1 \<and> i + 1 < length s' \<and>
           iterate s' ! i = v \<and> iterate s' ! (i + 1) = v"
proof -
  let ?xs = "iterate s"
  have rng: "in_Q_range v" using assms(2) by (rule iterate_in_Q_range)
  obtain i w where iw: "bisect_left s v = Inr i" "i \<le> length s" "uint w = v"
      "add s v = Inr (take i s @ w # drop i s)"
    using add_any [OF rng] by blast
  let ?s' = "take i s @ w # drop i s"
  have "i = leftmost_insertion_point ?xs v"
    using iw(1) bisect_left_sorted [OF assms(1), of v] by simp
  then have hit: "i < length ?xs" "?xs ! i = v"
    using leftmost_hit [OF assms(1), of v] assms(2) by simp_all
  have it: "iterate ?s' = take i ?xs @ v # drop i ?xs"
    using iw(3) by (rule iterate_insert)
  have len: "length (take i ?xs) = i" using hit(1) by simp
  have at_i: "iterate ?s' ! i = v"
    using len by (simp add: it nth_append)
  have "iterate ?s' ! (i + 1) = (v # drop i ?xs) ! 1"
    using len by (simp add: it nth_append)
  also have "\<dots> = ?xs ! i" using hit(1) by simp
  finally have at_Suc: "iterate ?s' ! (i + 1) = v" using hit(2) by simp
  have "length ?s' = length s + 1" using iw(2) by simp
  moreover have "i + 1 < length ?s'" using hit(1) iw(2) by (simp add: length_iterate)
  ultimately show ?thesis using iw(4) at_i at_Suc
    by (intro exI [of _ ?s'] exI [of _ i]) simp
qed

theorem C5_witness:
  "sorted (iterate [1, 3, 5]) \<and> 3 \<in> set (iterate [1, 3, 5]) \<and>
   (\<exists>s' i. add [1, 3, 5] 3 = Inr s' \<and> length s' = length [1, 3, 5 :: u64] + 1 \<and>
      i + 1 < length s' \<and> iterate s' ! i = 3 \<and> iterate s' ! (i + 1) = 3)"
  using C5_add_present_value [of "[1, 3, 5]" 3] by (simp add: iterate_def)

subsection \<open>Construction, again\<close>

text \<open>
  C6: for every finite input of unsigned 64-bit integers the constructor with
  \<^verbatim>\<open>is_sorted=False\<close> succeeds, iteration over the result is in non-decreasing order,
  and its items are the input's, each as often as in the input.
\<close>

theorem C6_new_sorts:
  assumes "list_all in_Q_range data"
  shows "\<exists>s. SnowflakeList_new data False = Inr s \<and> sorted (iterate s) \<and>
           mset (iterate s) = mset data"
proof -
  obtain s where "SnowflakeList_new data False = Inr s" "iterate s = sort data"
    using SnowflakeList_new_unsorted [OF assms] by blast
  then show ?thesis by simp
qed

theorem C6_witness:
  "list_all in_Q_range [5, 1, 3, 1] \<and>
   (\<exists>s. SnowflakeList_new [5, 1, 3, 1] False = Inr s \<and> sorted (iterate s) \<and>
      mset (iterate s) = mset [5, 1, 3, 1])"
  using C6_new_sorts [of "[5, 1, 3, 1]"] by (simp add: in_Q_range_def)

text \<open>
  C7: for every finite input of unsigned 64-bit integers that is in non-decreasing order,
  the constructor with \<^verbatim>\<open>is_sorted=True\<close> succeeds and iteration over the result is
  the input, item for item. (The constructor stores the data as given; the order of the
  input plays no part in the proof.)
\<close>

theorem C7_new_presorted:
  assumes "list_all in_Q_range data" "sorted data"
  shows "\<exists>s. SnowflakeList_new data True = Inr s \<and> iterate s = data"
  using array_new_in_range [OF assms(1)] by (simp add: SnowflakeList_new_def)

theorem C7_witness:
  "list_all in_Q_range [1, 3, 3, 5] \<and> sorted [1, 3, 3, 5 :: int] \<and>
   (\<exists>s. SnowflakeList_new [1, 3, 3, 5] True = Inr s \<and> iterate s = [1, 3, 3, 5])"
  using C7_new_presorted [of "[1, 3, 3, 5]"] by (simp add: in_Q_range_def)

subsection \<open>No method fails\<close>

text \<open>
  C8: on every array, sorted or not, and every unsigned 64-bit argument, \<open>add\<close>,
  \<open>get\<close> and \<open>has\<close> return without an error; the position \<open>bisect_left\<close> returns
  is at most the length, and where it is not the length the read at that position is
  within bounds.
\<close>

theorem C8_methods_total:
  assumes "in_Q_range v"
  shows "(\<exists>s'. add s v = Inr s') \<and> (\<exists>r. get s v = Inr r) \<and> (\<exists>b. has s v = Inr b) \<and>
         (\<exists>i. bisect_left s v = Inr i \<and> i \<le> length s \<and>
              (i \<noteq> length s \<longrightarrow> getitem s i = Inr (uint (s ! i))))"
proof -
  obtain i w where iw: "bisect_left s v = Inr i" "i \<le> length s"
      "add s v = Inr (take i s @ w # drop i s)"
    using add_any [OF assms, of s] by auto
  obtain b where b: "has s v = Inr b" "get s v = Inr (if b then Some v else None)"
    using get_has [of s v] by auto
  have a: "\<exists>s'. add s v = Inr s'" using iw(3) by simp
  have g: "\<exists>r. get s v = Inr r" using b(2) by simp
  have h: "\<exists>b. has s v = Inr b" using b(1) by simp
  have "i \<noteq> length s \<longrightarrow> getitem s i = Inr (uint (s ! i))"
    using iw(2) by (simp add: getitem_def)
  then have x: "\<exists>i. bisect_left s v = Inr i \<and> i \<le> length s \<and>
      (i \<noteq> length s \<longrightarrow> getitem s i = Inr (uint (s ! i)))"
    using iw(1,2) by simp
  show ?thesis using a g h x by (intro conjI)
qed

theorem C8_witness:
  "in_Q_range 4 \<and> (\<exists>s'. add [5, 1, 3] 4 = Inr s') \<and> (\<exists>r. get [5, 1, 3] 4 = Inr r) \<and>
   (\<exists>b. has [5, 1, 3] 4 = Inr b)"
  using C8_methods_total [of 4 "[5, 1, 3]"] by (simp add: in_Q_range_def)

subsection \<open>Membership\<close>

text \<open>
  C9: on a sorted array the membership test \<^verbatim>\<open>v in self\<close>, which is the array's own
  scan, returns the boolean that \<open>has v\<close> returns.
\<close>

theorem C9_contains_agrees_with_has:
  assumes "sorted (iterate s)"
  shows "has s v = Inr (array_contains s v)"
  using has_sorted [OF assms, of v] by (simp add: array_contains_set)

theorem C9_witness:
  "sorted (iterate [1, 3, 5]) \<and> has [1, 3, 5] 3 = Inr (array_contains [1, 3, 5] 3) \<and>
   has [1, 3, 5] 4 = Inr (array_contains [1, 3, 5] 4)"
proof -
  have s: "sorted (iterate [1, 3, 5])" by (simp add: iterate_def)
  show ?thesis
    using C9_contains_agrees_with_has [OF s, of 3] C9_contains_agrees_with_has [OF s, of 4] s
    by simp
qed

subsection \<open>What add changes\<close>

text \<open>
  C10: for an unsigned 64-bit value \<open>v\<close>, \<open>add v\<close> puts \<open>v\<close> at the position \<open>i\<close> that
  \<open>bisect_left\<close> returns and changes nothing else: iteration over the new array is the
  first \<open>i\<close> old items, then \<open>v\<close>, then the remaining old items; deleting position \<open>i\<close>
  of the new array gives the old array back; the multiset of items grows by one \<open>v\<close>; and
  on a sorted array \<open>i\<close> is the leftmost insertion point of \<open>v\<close>.
\<close>

theorem C10_add_frame:
  assumes "in_Q_range v"
  shows "\<exists>i s'. bisect_left s v = Inr i \<and> add s v = Inr s' \<and>
           iterate s' = take i (iterate s) @ [v] @ drop i (iterate s) \<and>
           take i s' @ drop (Suc i) s' = s \<and>
           mset (iterate s') = mset (iterate s) + {#v#} \<and>
           (sorted (iterate s) \<longrightarrow> i = leftmost_insertion_point (iterate s) v)"
proof -
  obtain i w where iw: "bisect_left s v = Inr i" "i \<le> length s" "uint w = v"
      "add s v = Inr (take i s @ w # drop i s)"
    using add_any [OF assms] by blast
  let ?s' = "take i s @ w # drop i s"
  have it: "iterate ?s' = take i (iterate s) @ [v] @ drop i (iterate s)"
    using iterate_insert [OF iw(3)] by simp
  have del: "take i ?s' @ drop (Suc i) ?s' = s"
    using iw(2) by (simp add: min_absorb2)
  have "mset (iterate s) = mset (take i (iterate s)) + mset (drop i (iterate s))"
    by (metis append_take_drop_id mset_append)
  then have ms: "mset (iterate ?s') = mset (iterate s) + {#v#}"
    by (simp add: it)
  have lm: "sorted (iterate s) \<longrightarrow> i = leftmost_insertion_point (iterate s) v"
    using iw(1) bisect_left_sorted [of s v] by auto
  show ?thesis
    using iw(1,4) it del ms lm
    by (intro exI [of _ i] exI [of _ ?s']) simp
qed

theorem C10_witness:
  "in_Q_range 3 \<and> bisect_left [1, 3, 5] 3 = Inr 1 \<and> add [1, 3, 5] 3 = Inr [1, 3, 3, 5] \<and>
   leftmost_insertion_point (iterate [1, 3, 5]) 3 = 1"
proof -
  have r: "in_Q_range 3" by (simp add: in_Q_range_def)
  have s: "sorted (iterate [1, 3, 5])" by (simp add: iterate_def)
  have l: "leftmost_insertion_point (iterate [1, 3, 5]) 3 = 1"
    by (simp add: leftmost_insertion_point_def iterate_def)
  have a: "add [1, 3, 5] 3 = Inr [1, 3, 3, 5]"
    by (simp add: add_def bisect_left_def bisect_left_loop.simps getitem_def array_insert_def
        to_Q_def in_Q_range_def)
  obtain i s' where h: "bisect_left [1, 3, 5] 3 = Inr i"
      "sorted (iterate [1, 3, 5]) \<longrightarrow> i = leftmost_insertion_point (iterate [1, 3, 5]) 3"
    using C10_add_frame [OF r, of "[1, 3, 5]"] by blast
  have i: "i = 1" using h(2) s l by simp
  show ?thesis using r h(1) i l a by simp
qed

end
